theory Spec2Isabelle
  imports Main "HOL-Library.Word"
begin

unbundle bit_operations_syntax

section \<open>Bytes, buffers and byte order\<close>

text \<open>
  Both codecs of \<^verbatim>\<open>protocol.cc\<close> work in place on a raw \<^verbatim>\<open>char*\<close>. A buffer is the
  list of its bytes; a pointer \<^verbatim>\<open>buf_ + k\<close> is the index \<open>k\<close>. Multi-byte fields are
  written through \<^verbatim>\<open>reinterpret_cast\<close> in host byte order after \<^verbatim>\<open>htons\<close>/\<^verbatim>\<open>htonl\<close>, so the
  host's byte order is a parameter \<open>le\<close> (true on a little-endian host) of every such
  access, and nothing below fixes it.
\<close>

type_synonym byte = "8 word"
type_synonym buffer = "byte list"

definition cat16 :: "byte \<Rightarrow> byte \<Rightarrow> 16 word" where
  "cat16 hi lo = push_bit 8 (ucast hi) OR ucast lo"

definition cat32 :: "byte \<Rightarrow> byte \<Rightarrow> byte \<Rightarrow> byte \<Rightarrow> 32 word" where
  "cat32 b3 b2 b1 b0 =
     push_bit 24 (ucast b3) OR push_bit 16 (ucast b2) OR push_bit 8 (ucast b1) OR ucast b0"

text \<open>Byte swaps, as \<^verbatim>\<open>htons\<close> and \<^verbatim>\<open>htonl\<close> perform them on a little-endian host.\<close>

definition bswap_16 :: "16 word \<Rightarrow> 16 word" where
  "bswap_16 x = cat16 (ucast x) (ucast (drop_bit 8 x))"

definition bswap_32 :: "32 word \<Rightarrow> 32 word" where
  "bswap_32 x =
     cat32 (ucast x) (ucast (drop_bit 8 x)) (ucast (drop_bit 16 x)) (ucast (drop_bit 24 x))"

definition htons :: "bool \<Rightarrow> 16 word \<Rightarrow> 16 word" where
  "htons le x = (if le then bswap_16 x else x)"

definition ntohs :: "bool \<Rightarrow> 16 word \<Rightarrow> 16 word" where
  "ntohs le x = (if le then bswap_16 x else x)"

definition htonl :: "bool \<Rightarrow> 32 word \<Rightarrow> 32 word" where
  "htonl le x = (if le then bswap_32 x else x)"

definition ntohl :: "bool \<Rightarrow> 32 word \<Rightarrow> 32 word" where
  "ntohl le x = (if le then bswap_32 x else x)"

text \<open>
  \<^verbatim>\<open>*reinterpret_cast<uint16_t*>(buf + off) = v\<close> and its read, in host byte order; the
  same for \<^verbatim>\<open>uint32_t\<close>.
\<close>

definition store_u16 :: "bool \<Rightarrow> buffer \<Rightarrow> nat \<Rightarrow> 16 word \<Rightarrow> buffer" where
  "store_u16 le buf off v =
     (if le then buf[off := ucast v, off + 1 := ucast (drop_bit 8 v)]
      else buf[off := ucast (drop_bit 8 v), off + 1 := ucast v])"

definition load_u16 :: "bool \<Rightarrow> buffer \<Rightarrow> nat \<Rightarrow> 16 word" where
  "load_u16 le buf off =
     (if le then cat16 (buf ! (off + 1)) (buf ! off)
      else cat16 (buf ! off) (buf ! (off + 1)))"

definition store_u32 :: "bool \<Rightarrow> buffer \<Rightarrow> nat \<Rightarrow> 32 word \<Rightarrow> buffer" where
  "store_u32 le buf off v =
     (if le then buf[off := ucast v, off + 1 := ucast (drop_bit 8 v),
                     off + 2 := ucast (drop_bit 16 v), off + 3 := ucast (drop_bit 24 v)]
      else buf[off := ucast (drop_bit 24 v), off + 1 := ucast (drop_bit 16 v),
               off + 2 := ucast (drop_bit 8 v), off + 3 := ucast v])"

definition load_u32 :: "bool \<Rightarrow> buffer \<Rightarrow> nat \<Rightarrow> 32 word" where
  "load_u32 le buf off =
     (if le then cat32 (buf ! (off + 3)) (buf ! (off + 2)) (buf ! (off + 1)) (buf ! off)
      else cat32 (buf ! off) (buf ! (off + 1)) (buf ! (off + 2)) (buf ! (off + 3)))"

section \<open>The checksum\<close>

text \<open>
  \<^verbatim>\<open>boost::crc_ccitt_type\<close> is \<^verbatim>\<open>crc_optimal<16, 0x1021, 0xFFFF, 0, false, false>\<close>: a
  16-bit register that starts at \<open>0xFFFF\<close>, takes each byte most significant bit first
  against the polynomial \<open>0x1021\<close>, reflects nothing and applies no final xor.
  \<open>crc_shift\<close> is one bit step of the register, \<open>process_byte\<close> feeds one byte,
  \<open>process_bytes\<close> a run of them, and \<open>checksum\<close> reads the register of a fresh
  computer after that run.
\<close>

definition crc_shift :: "16 word \<Rightarrow> 16 word" where
  "crc_shift c = (if bit c 15 then push_bit 1 c XOR 0x1021 else push_bit 1 c)"

definition process_byte :: "16 word \<Rightarrow> byte \<Rightarrow> 16 word" where
  "process_byte c b = (crc_shift ^^ 8) (c XOR push_bit 8 (ucast b))"

definition process_bytes :: "16 word \<Rightarrow> byte list \<Rightarrow> 16 word" where
  "process_bytes c bs = foldl process_byte c bs"

definition crc_ccitt :: "byte list \<Rightarrow> 16 word" where
  "crc_ccitt bs = process_bytes 0xFFFF bs"

section \<open>The frame header\<close>

text \<open>
  Modelled from the spec: \<^verbatim>\<open>protocol.h\<close> is not among the sources, so the header size
  \<open>kByteSize\<close> is the spec's (14 fixed bytes and 2 checksum bytes) and \<open>kUnitSize\<close> is
  the size of one extension field (a type byte and a length byte). The magic constant
  \<open>kMagic\<close> is a parameter \<open>magic\<close> of \<open>IsValid\<close> and \<open>Build\<close>, a byte value as the
  \<^verbatim>\<open>uint8_t\<close> it is compared with.
\<close>

definition kByteSize :: nat where
  "kByteSize = 16"

definition kUnitSize :: int where
  "kUnitSize = 2"

subsection \<open>\<^verbatim>\<open>Header::Parser\<close>\<close>

definition IsValid :: "bool \<Rightarrow> byte \<Rightarrow> buffer \<Rightarrow> bool" where
  "IsValid le magic buf =
     (let b = buf ! 0 in
      if b \<noteq> magic then False
      else
        let crc16_new = crc_ccitt (take 14 buf);
            crc16_origin = ntohs le (load_u16 le buf (kByteSize - 2))
        in if crc16_new \<noteq> crc16_origin then False else True)"

definition Parser_type :: "buffer \<Rightarrow> byte" where
  "Parser_type buf = buf ! 1"

definition Parser_id :: "bool \<Rightarrow> buffer \<Rightarrow> 32 word" where
  "Parser_id le buf = ntohl le (load_u32 le buf 2)"

definition Parser_body_type :: "bool \<Rightarrow> buffer \<Rightarrow> 16 word" where
  "Parser_body_type le buf = ntohs le (load_u16 le buf 6)"

definition Parser_body_size :: "bool \<Rightarrow> buffer \<Rightarrow> 32 word" where
  "Parser_body_size le buf = drop_bit 8 (ntohl le (load_u32 le buf 8))"

definition Parser_ext_count :: "buffer \<Rightarrow> byte" where
  "Parser_ext_count buf = buf ! 11"

definition Parser_ext_len :: "bool \<Rightarrow> buffer \<Rightarrow> 16 word" where
  "Parser_ext_len le buf = ntohs le (load_u16 le buf 12)"

subsection \<open>\<^verbatim>\<open>Header::Builder\<close>\<close>

definition Build :: "bool \<Rightarrow> byte \<Rightarrow> buffer \<Rightarrow> buffer" where
  "Build le magic buf =
     (let buf1 = buf[0 := magic];
          crc16 = crc_ccitt (take 14 buf1)
      in store_u16 le buf1 (kByteSize - 2) (htons le crc16))"

definition set_type :: "byte \<Rightarrow> buffer \<Rightarrow> buffer" where
  "set_type t buf = buf[1 := t]"

definition set_id :: "bool \<Rightarrow> 32 word \<Rightarrow> buffer \<Rightarrow> buffer" where
  "set_id le i buf = store_u32 le buf 2 (htonl le i)"

definition set_body_type :: "bool \<Rightarrow> 16 word \<Rightarrow> buffer \<Rightarrow> buffer" where
  "set_body_type le bt buf = store_u16 le buf 6 (htons le bt)"

definition set_body_size :: "bool \<Rightarrow> 32 word \<Rightarrow> buffer \<Rightarrow> buffer" where
  "set_body_size le body_size buf =
     (let x = buf ! 11;
          buf1 = store_u32 le buf 8 (htonl le (push_bit 8 body_size))
      in buf1[11 := x])"

definition set_ext_count :: "byte \<Rightarrow> buffer \<Rightarrow> buffer" where
  "set_ext_count c buf = buf[11 := c]"

definition set_ext_len :: "bool \<Rightarrow> 16 word \<Rightarrow> buffer \<Rightarrow> buffer" where
  "set_ext_len le l buf = store_u16 le buf 12 (htons le l)"

text \<open>
  A header as the caller means it, and the six setter calls that write it. A frame is
  built by running setter calls in some order on a buffer and then \<open>Build\<close>.
\<close>

record header =
  h_type :: byte
  h_id :: "32 word"
  h_body_type :: "16 word"
  h_body_size :: "32 word"
  h_ext_count :: byte
  h_ext_len :: "16 word"

datatype setter =
    SetType byte
  | SetId "32 word"
  | SetBodyType "16 word"
  | SetBodySize "32 word"
  | SetExtCount byte
  | SetExtLen "16 word"

fun run_setter :: "bool \<Rightarrow> buffer \<Rightarrow> setter \<Rightarrow> buffer" where
  "run_setter le buf (SetType t) = set_type t buf"
| "run_setter le buf (SetId i) = set_id le i buf"
| "run_setter le buf (SetBodyType bt) = set_body_type le bt buf"
| "run_setter le buf (SetBodySize n) = set_body_size le n buf"
| "run_setter le buf (SetExtCount c) = set_ext_count c buf"
| "run_setter le buf (SetExtLen l) = set_ext_len le l buf"

definition setters_of :: "header \<Rightarrow> setter list" where
  "setters_of H =
     [SetType (h_type H), SetId (h_id H), SetBodyType (h_body_type H),
      SetBodySize (h_body_size H), SetExtCount (h_ext_count H), SetExtLen (h_ext_len H)]"

definition run_setters :: "bool \<Rightarrow> buffer \<Rightarrow> setter list \<Rightarrow> buffer" where
  "run_setters le buf calls = foldl (run_setter le) buf calls"

text \<open>What the parser's getter for a call's field reads, compared with the call's value.\<close>

fun reads_back :: "bool \<Rightarrow> buffer \<Rightarrow> setter \<Rightarrow> bool" where
  "reads_back le buf (SetType t) = (Parser_type buf = t)"
| "reads_back le buf (SetId i) = (Parser_id le buf = i)"
| "reads_back le buf (SetBodyType bt) = (Parser_body_type le buf = bt)"
| "reads_back le buf (SetBodySize n) = (Parser_body_size le buf = n)"
| "reads_back le buf (SetExtCount c) = (Parser_ext_count buf = c)"
| "reads_back le buf (SetExtLen l) = (Parser_ext_len le buf = l)"

definition parse_header :: "bool \<Rightarrow> buffer \<Rightarrow> header" where
  "parse_header le buf =
     \<lparr>h_type = Parser_type buf, h_id = Parser_id le buf,
      h_body_type = Parser_body_type le buf, h_body_size = Parser_body_size le buf,
      h_ext_count = Parser_ext_count buf, h_ext_len = Parser_ext_len le buf\<rparr>"

text \<open>Flipping bit \<open>j\<close> of byte \<open>i\<close> of a buffer.\<close>

definition flip_bit_at :: "buffer \<Rightarrow> nat \<Rightarrow> nat \<Rightarrow> buffer" where
  "flip_bit_at buf i j = buf[i := (buf ! i) XOR push_bit j 1]"

section \<open>The network layout, whatever the host\<close>

text \<open>Writing and reading a field most significant byte first.\<close>

definition put_be16 :: "buffer \<Rightarrow> nat \<Rightarrow> 16 word \<Rightarrow> buffer" where
  "put_be16 buf off v = buf[off := ucast (drop_bit 8 v), off + 1 := ucast v]"

definition get_be16 :: "buffer \<Rightarrow> nat \<Rightarrow> 16 word" where
  "get_be16 buf off = cat16 (buf ! off) (buf ! (off + 1))"

definition put_be32 :: "buffer \<Rightarrow> nat \<Rightarrow> 32 word \<Rightarrow> buffer" where
  "put_be32 buf off v =
     buf[off := ucast (drop_bit 24 v), off + 1 := ucast (drop_bit 16 v),
         off + 2 := ucast (drop_bit 8 v), off + 3 := ucast v]"

definition get_be32 :: "buffer \<Rightarrow> nat \<Rightarrow> 32 word" where
  "get_be32 buf off = cat32 (buf ! off) (buf ! (off + 1)) (buf ! (off + 2)) (buf ! (off + 3))"

section \<open>The extension fields\<close>

text \<open>
  The extension parser holds \<open>ext_count_\<close> and a pointer \<open>ext_buf_\<close> and reads through
  the pointer unchecked. \<open>peek\<close> is that read: \<open>None\<close> when the position lies outside
  the buffer the pointer was given, where the C++ has no defined result.
\<close>

definition peek :: "buffer \<Rightarrow> int \<Rightarrow> byte option" where
  "peek buf pos = (if 0 \<le> pos \<and> pos < int (length buf) then Some (buf ! nat pos) else None)"

text \<open>The loop of \<open>IsValid\<close>: \<open>i\<close> runs from its start up to \<open>ext_count_\<close>, \<open>len\<close> is a \<^verbatim>\<open>uint16_t\<close>.\<close>

function sum_lengths :: "buffer \<Rightarrow> nat \<Rightarrow> nat \<Rightarrow> 16 word \<Rightarrow> 16 word option" where
  "sum_lengths buf n i len =
     (if i < n then
        (let pos = int i * kUnitSize in
         case peek buf (pos + 1) of
           None \<Rightarrow> None
         | Some b \<Rightarrow> sum_lengths buf n (i + 1) (len + ucast b))
      else Some len)"
  by pat_completeness auto
termination
  by (relation "measure (\<lambda>(buf, n, i, len). n - i)") auto

definition Ext_IsValid :: "byte \<Rightarrow> buffer \<Rightarrow> 16 word \<Rightarrow> bool option" where
  "Ext_IsValid ext_count buf ext_len =
     (case sum_lengths buf (unat ext_count) 0 0 of
        None \<Rightarrow> None
      | Some len \<Rightarrow> Some (if len \<noteq> ext_len then False else True))"

datatype ext_item = ReturnsFalse | ReturnsTrue byte byte | ReadsOutside

definition GetExtItem :: "byte \<Rightarrow> buffer \<Rightarrow> int \<Rightarrow> ext_item" where
  "GetExtItem ext_count buf index =
     (if index > uint ext_count then ReturnsFalse
      else
        let pos = index * kUnitSize in
        case (peek buf pos, peek buf (pos + 1)) of
          (Some t, Some l) \<Rightarrow> ReturnsTrue t l
        | _ \<Rightarrow> ReadsOutside)"

section \<open>The session adapter\<close>

text \<open>
  Modelled from the spec: \<^verbatim>\<open>util.h\<close>, \<^verbatim>\<open>keeper_impl.h\<close> and \<^verbatim>\<open>callback_wrapper.h\<close> are not
  among the sources. A \<open>Status\<close> is a result code of which the adapter tells apart
  success, \<open>kInvalidState\<close> and bad arguments; a pending operation
  (\<^verbatim>\<open>CallbackWrapper::Impl\<close>) is the expected result count and the ordered result slots,
  created with no slot.
\<close>

datatype status = kOk | kInvalidState | kBadArguments | kFailure int

definition IsOk :: "status \<Rightarrow> bool" where
  "IsOk s = (s = kOk)"

definition IsBadArguments :: "status \<Rightarrow> bool" where
  "IsBadArguments s = (s = kBadArguments)"

type_synonym handle = nat

text \<open>A reactor wait as \<open>AsyncWait\<close> arms it: descriptor, event flags, timeout in milliseconds.\<close>

type_synonym wait = "int \<times> int \<times> nat"

text \<open>
  The adapter's members. A watcher is a \<^verbatim>\<open>boost::function\<close>, which may be empty: \<open>None\<close>.
  \<open>event\<close> is the wait the reactor holds for the adapter, if any.
\<close>

record ('nw, 'cw) keeper =
  zh :: "handle option"
  listener :: bool
  node_watcher :: "string \<rightharpoonup> 'nw option list"
  child_watcher :: "string \<rightharpoonup> 'cw option list"
  event :: "wait option"

record 'res pending =
  count :: nat
  results :: "'res list"

datatype opname =
    OpAddAuth | OpCreate | OpDelete | OpExists | OpGet | OpSet | OpGetAcl | OpSetAcl
  | OpGetChildren | OpGetChildrenWithStat | OpMulti

text \<open>
  What a call does besides changing the adapter, in order: the submission to the foreign
  library (with the path, and whether a watcher function was passed rather than \<open>NULL\<close>),
  the user callback invoked with a failure result, the release of the pending operation
  to the completion machinery, and a failed \<open>CHECK\<close>, which ends the process.
\<close>

datatype action =
    Submit opname string bool
  | SubmitMulti nat
  | Callback opname status
  | Release
  | CheckFailed

type_synonym acl = "int \<times> string \<times> string"

definition IsOpen :: "('nw, 'cw) keeper \<Rightarrow> bool" where
  "IsOpen k = (zh k \<noteq> None)"

definition Close :: "('nw, 'cw) keeper \<Rightarrow> ('nw, 'cw) keeper" where
  "Close k =
     (if zh k \<noteq> None then
        k\<lparr>zh := None, listener := False, node_watcher := Map.empty,
          child_watcher := Map.empty, event := None\<rparr>
      else k)"

text \<open>
  The registration shared by \<open>Exists\<close>, \<open>Get\<close>, \<open>GetChildren\<close> and
  \<open>GetChildrenWithStat\<close>: find the path, insert an empty list when it is absent, check
  the iterator, push the watcher at the back. \<open>None\<close> is the failed \<open>CHECK\<close>.
\<close>

definition push_watcher :: "(string \<rightharpoonup> 'w list) \<Rightarrow> string \<Rightarrow> 'w \<Rightarrow> (string \<rightharpoonup> 'w list) option" where
  "push_watcher m path watcher =
     (let m1 = (if m path = None then m(path \<mapsto> []) else m) in
      case m1 path of
        None \<Rightarrow> None
      | Some ws \<Rightarrow> Some (m1(path \<mapsto> ws @ [watcher])))"

definition AddAuth ::
  "status \<Rightarrow> string \<Rightarrow> string \<Rightarrow> ('nw, 'cw) keeper \<Rightarrow> ('nw, 'cw) keeper \<times> action list" where
  "AddAuth rc scheme cert k =
     (if \<not> IsOpen k then (k, [Callback OpAddAuth kInvalidState])
      else
        let s = rc in
        if IsOk s then (k, [Submit OpAddAuth scheme False, Release])
        else (k, [Submit OpAddAuth scheme False, Callback OpAddAuth s]))"

definition Create ::
  "status \<Rightarrow> string \<Rightarrow> string \<Rightarrow> acl list \<Rightarrow> int \<Rightarrow> ('nw, 'cw) keeper
     \<Rightarrow> ('nw, 'cw) keeper \<times> action list" where
  "Create rc path val acls mode k =
     (if \<not> IsOpen k then (k, [Callback OpCreate kInvalidState])
      else
        let s = rc in
        if IsOk s then (k, [Submit OpCreate path False, Release])
        else (k, [Submit OpCreate path False, Callback OpCreate s]))"

definition Delete ::
  "status \<Rightarrow> string \<Rightarrow> int \<Rightarrow> ('nw, 'cw) keeper \<Rightarrow> ('nw, 'cw) keeper \<times> action list" where
  "Delete rc path version k =
     (if \<not> IsOpen k then (k, [Callback OpDelete kInvalidState])
      else
        let s = rc in
        if IsOk s then (k, [Submit OpDelete path False, Release])
        else (k, [Submit OpDelete path False, Callback OpDelete s]))"

definition Exists ::
  "status \<Rightarrow> string \<Rightarrow> 'nw option \<Rightarrow> ('nw, 'cw) keeper \<Rightarrow> ('nw, 'cw) keeper \<times> action list" where
  "Exists rc path watcher k =
     (if \<not> IsOpen k then (k, [Callback OpExists kInvalidState])
      else
        let s = rc in
        if IsOk s then
          (case push_watcher (node_watcher k) path watcher of
             None \<Rightarrow> (k, [Submit OpExists path (watcher \<noteq> None), CheckFailed])
           | Some m \<Rightarrow> (k\<lparr>node_watcher := m\<rparr>, [Submit OpExists path (watcher \<noteq> None), Release]))
        else (k, [Submit OpExists path (watcher \<noteq> None), Callback OpExists s]))"

definition Get ::
  "status \<Rightarrow> string \<Rightarrow> 'nw option \<Rightarrow> ('nw, 'cw) keeper \<Rightarrow> ('nw, 'cw) keeper \<times> action list" where
  "Get rc path watcher k =
     (if \<not> IsOpen k then (k, [Callback OpGet kInvalidState])
      else
        let s = rc in
        if IsOk s then
          (case push_watcher (node_watcher k) path watcher of
             None \<Rightarrow> (k, [Submit OpGet path (watcher \<noteq> None), CheckFailed])
           | Some m \<Rightarrow> (k\<lparr>node_watcher := m\<rparr>, [Submit OpGet path (watcher \<noteq> None), Release]))
        else (k, [Submit OpGet path (watcher \<noteq> None), Callback OpGet s]))"

definition Set ::
  "status \<Rightarrow> string \<Rightarrow> string \<Rightarrow> int \<Rightarrow> ('nw, 'cw) keeper
     \<Rightarrow> ('nw, 'cw) keeper \<times> action list" where
  "Set rc path val version k =
     (if \<not> IsOpen k then (k, [Callback OpSet kInvalidState])
      else
        let s = rc in
        if IsOk s then (k, [Submit OpSet path False, Release])
        else (k, [Submit OpSet path False, Callback OpSet s]))"

definition GetAcl ::
  "status \<Rightarrow> string \<Rightarrow> ('nw, 'cw) keeper \<Rightarrow> ('nw, 'cw) keeper \<times> action list" where
  "GetAcl rc path k =
     (if \<not> IsOpen k then (k, [Callback OpGetAcl kInvalidState])
      else
        let s = rc in
        if IsOk s then (k, [Submit OpGetAcl path False, Release])
        else (k, [Submit OpGetAcl path False, Callback OpGetAcl s]))"

definition SetAcl ::
  "status \<Rightarrow> string \<Rightarrow> acl list \<Rightarrow> int \<Rightarrow> ('nw, 'cw) keeper
     \<Rightarrow> ('nw, 'cw) keeper \<times> action list" where
  "SetAcl rc path acls version k =
     (if \<not> IsOpen k then (k, [Callback OpSetAcl kInvalidState])
      else
        let s = rc in
        if IsOk s then (k, [Submit OpSetAcl path False, Release])
        else (k, [Submit OpSetAcl path False, Callback OpSetAcl s]))"

definition GetChildren ::
  "status \<Rightarrow> string \<Rightarrow> 'cw option \<Rightarrow> ('nw, 'cw) keeper \<Rightarrow> ('nw, 'cw) keeper \<times> action list" where
  "GetChildren rc path watcher k =
     (if \<not> IsOpen k then (k, [Callback OpGetChildren kInvalidState])
      else
        let s = rc in
        if IsOk s then
          (case push_watcher (child_watcher k) path watcher of
             None \<Rightarrow> (k, [Submit OpGetChildren path (watcher \<noteq> None), CheckFailed])
           | Some m \<Rightarrow>
               (k\<lparr>child_watcher := m\<rparr>, [Submit OpGetChildren path (watcher \<noteq> None), Release]))
        else (k, [Submit OpGetChildren path (watcher \<noteq> None), Callback OpGetChildren s]))"

definition GetChildrenWithStat ::
  "status \<Rightarrow> string \<Rightarrow> 'cw option \<Rightarrow> ('nw, 'cw) keeper \<Rightarrow> ('nw, 'cw) keeper \<times> action list" where
  "GetChildrenWithStat rc path watcher k =
     (if \<not> IsOpen k then (k, [Callback OpGetChildrenWithStat kInvalidState])
      else
        let s = rc in
        if IsOk s then
          (case push_watcher (child_watcher k) path watcher of
             None \<Rightarrow> (k, [Submit OpGetChildrenWithStat path (watcher \<noteq> None), CheckFailed])
           | Some m \<Rightarrow>
               (k\<lparr>child_watcher := m\<rparr>,
                [Submit OpGetChildrenWithStat path (watcher \<noteq> None), Release]))
        else
          (k, [Submit OpGetChildrenWithStat path (watcher \<noteq> None),
               Callback OpGetChildrenWithStat s]))"

text \<open>
  \<open>Multi\<close>: \<open>MakeResult\<close> is the operation's own virtual method, a parameter here: from
  the operation and the index of the native step it fills, the result slot. The loop
  pushes one slot per operation; \<open>CHECK_EQ\<close> compares the slots with the count the
  pending operation was created with.
\<close>

fun make_results :: "('op \<Rightarrow> nat \<Rightarrow> 'res) \<Rightarrow> 'op list \<Rightarrow> nat \<Rightarrow> 'res pending \<Rightarrow> 'res pending" where
  "make_results MakeResult [] idx cb = cb"
| "make_results MakeResult (op # ops) idx cb =
     make_results MakeResult ops (idx + 1) (cb\<lparr>results := results cb @ [MakeResult op idx]\<rparr>)"

definition Multi ::
  "('op \<Rightarrow> nat \<Rightarrow> 'res) \<Rightarrow> status \<Rightarrow> 'op list \<Rightarrow> ('nw, 'cw) keeper
     \<Rightarrow> ('nw, 'cw) keeper \<times> action list \<times> 'res pending option" where
  "Multi MakeResult rc ops k =
     (if \<not> IsOpen k then (k, [Callback OpMulti kInvalidState], None)
      else
        let cb = make_results MakeResult ops 0 \<lparr>count = length ops, results = []\<rparr> in
        if length (results cb) \<noteq> count cb then (k, [CheckFailed], Some cb)
        else
          let s = rc in
          if IsOk s then (k, [SubmitMulti (length ops), Release], Some cb)
          else (k, [SubmitMulti (length ops), Callback OpMulti s], Some cb))"

subsection \<open>The interest/process loop\<close>

text \<open>
  The foreign library and the reactor are collaborators. What they answer during one
  call is a parameter: the result of \<open>zookeeper_interest\<close> (status, descriptor,
  interest flags, timeout in milliseconds), the status of \<open>zookeeper_process\<close> for the
  flags it is given, what the callbacks it runs do to the adapter (a listener may close
  the session), and whether \<open>is_unrecoverable\<close> answers other than \<open>ZOK\<close> afterwards.
  \<open>kReadable\<close> and \<open>kWritable\<close> are the reactor's flag constants, of a header that is
  not among the sources; \<open>ZOOKEEPER_WRITE\<close> and \<open>ZOOKEEPER_READ\<close> are those of
  \<^verbatim>\<open>zookeeper.h\<close>.
\<close>

record ('nw, 'cw) zookeeper =
  zookeeper_interest :: "status \<times> int \<times> int \<times> nat"
  zookeeper_process :: "int \<Rightarrow> status"
  process_callbacks :: "('nw, 'cw) keeper \<Rightarrow> ('nw, 'cw) keeper"
  is_unrecoverable :: bool
  kReadable :: int
  kWritable :: int

definition ZOOKEEPER_WRITE :: int where
  "ZOOKEEPER_WRITE = push_bit 0 1"

definition ZOOKEEPER_READ :: int where
  "ZOOKEEPER_READ = push_bit 1 1"

definition IsUnrecoverable :: "('nw, 'cw) zookeeper \<Rightarrow> ('nw, 'cw) keeper \<Rightarrow> bool" where
  "IsUnrecoverable zk k = is_unrecoverable zk"

text \<open>\<open>Interest\<close> takes the caller's \<open>fd\<close>, \<open>interest\<close> and \<open>timeout\<close> and returns them as left.\<close>

definition Interest ::
  "('nw, 'cw) zookeeper \<Rightarrow> ('nw, 'cw) keeper \<Rightarrow> int \<Rightarrow> int \<Rightarrow> nat \<Rightarrow> status \<times> int \<times> int \<times> nat" where
  "Interest zk k fd interest timeout =
     (if \<not> IsOpen k then (kInvalidState, fd, interest, timeout)
      else
        case zookeeper_interest zk of
          (s, fd1, interest1, tv) \<Rightarrow>
            if IsOk s then (s, fd1, interest1, tv) else (s, fd1, interest1, timeout))"

definition Process ::
  "('nw, 'cw) zookeeper \<Rightarrow> int \<Rightarrow> ('nw, 'cw) keeper \<Rightarrow> status \<times> ('nw, 'cw) keeper" where
  "Process zk events k =
     (if \<not> IsOpen k then (kInvalidState, k)
      else (zookeeper_process zk events, process_callbacks zk k))"

text \<open>\<open>UpdateEvent\<close> arms one wait; \<open>None\<close> is the failed \<open>CHECK\<close> on a bad-arguments status.\<close>

definition UpdateEvent :: "('nw, 'cw) zookeeper \<Rightarrow> ('nw, 'cw) keeper \<Rightarrow> ('nw, 'cw) keeper option" where
  "UpdateEvent zk k =
     (case Interest zk k (- 1) 0 0 of
        (s, fd, interest, timeout) \<Rightarrow>
          if \<not> IsOk s \<and> IsBadArguments s then None
          else
            let timeout1 = (if \<not> IsOk s \<and> timeout = 0 then 100 else timeout);
                zkevents0 = 0;
                zkevents1 = (if interest AND ZOOKEEPER_READ \<noteq> 0
                             then zkevents0 OR kReadable zk else zkevents0);
                zkevents2 = (if interest AND ZOOKEEPER_WRITE \<noteq> 0
                             then zkevents1 OR kWritable zk else zkevents1)
            in Some (k\<lparr>event := Some (fd, zkevents2, timeout1)\<rparr>))"

text \<open>
  One firing of the wait. \<open>Aborted\<close>: a \<open>CHECK\<close> failed; \<open>Rearmed\<close>: \<open>UpdateEvent\<close> ran
  and armed the next wait; \<open>Stopped\<close>: the handler returned without arming one.
\<close>

datatype 'k tick = Aborted | Rearmed 'k | Stopped 'k

definition HandleEvent :: "('nw, 'cw) zookeeper \<Rightarrow> int \<Rightarrow> ('nw, 'cw) keeper \<Rightarrow> ('nw, 'cw) keeper tick" where
  "HandleEvent zk events k =
     (let interest0 = 0;
          interest1 = (if events AND kReadable zk \<noteq> 0
                       then interest0 OR ZOOKEEPER_READ else interest0);
          interest2 = (if events AND kWritable zk \<noteq> 0
                       then interest1 OR ZOOKEEPER_WRITE else interest1)
      in case Process zk interest2 k of
           (s, k1) \<Rightarrow>
             if \<not> IsOk s \<and> IsBadArguments s then Aborted
             else if IsOpen k1 \<and> \<not> IsUnrecoverable zk k1 then
               (case UpdateEvent zk k1 of None \<Rightarrow> Aborted | Some k2 \<Rightarrow> Rearmed k2)
             else Stopped k1)"

subsection \<open>Any asynchronous call\<close>

datatype ('nw, 'cw, 'op) request =
    ReqAddAuth string string
  | ReqCreate string string "acl list" int
  | ReqDelete string int
  | ReqExists string "'nw option"
  | ReqGet string "'nw option"
  | ReqSet string string int
  | ReqGetAcl string
  | ReqSetAcl string "acl list" int
  | ReqGetChildren string "'cw option"
  | ReqGetChildrenWithStat string "'cw option"
  | ReqMulti "'op list"

fun call ::
  "('op \<Rightarrow> nat \<Rightarrow> 'res) \<Rightarrow> status \<Rightarrow> ('nw, 'cw, 'op) request \<Rightarrow> ('nw, 'cw) keeper
     \<Rightarrow> ('nw, 'cw) keeper \<times> action list" where
  "call mk rc (ReqAddAuth scheme cert) k = AddAuth rc scheme cert k"
| "call mk rc (ReqCreate path val acls mode) k = Create rc path val acls mode k"
| "call mk rc (ReqDelete path version) k = Delete rc path version k"
| "call mk rc (ReqExists path watcher) k = Exists rc path watcher k"
| "call mk rc (ReqGet path watcher) k = Get rc path watcher k"
| "call mk rc (ReqSet path val version) k = Set rc path val version k"
| "call mk rc (ReqGetAcl path) k = GetAcl rc path k"
| "call mk rc (ReqSetAcl path acls version) k = SetAcl rc path acls version k"
| "call mk rc (ReqGetChildren path watcher) k = GetChildren rc path watcher k"
| "call mk rc (ReqGetChildrenWithStat path watcher) k = GetChildrenWithStat rc path watcher k"
| "call mk rc (ReqMulti ops) k = (case Multi mk rc ops k of (k1, acts, cb) \<Rightarrow> (k1, acts))"

fun opname_of :: "('nw, 'cw, 'op) request \<Rightarrow> opname" where
  "opname_of (ReqAddAuth _ _) = OpAddAuth"
| "opname_of (ReqCreate _ _ _ _) = OpCreate"
| "opname_of (ReqDelete _ _) = OpDelete"
| "opname_of (ReqExists _ _) = OpExists"
| "opname_of (ReqGet _ _) = OpGet"
| "opname_of (ReqSet _ _ _) = OpSet"
| "opname_of (ReqGetAcl _) = OpGetAcl"
| "opname_of (ReqSetAcl _ _ _) = OpSetAcl"
| "opname_of (ReqGetChildren _ _) = OpGetChildren"
| "opname_of (ReqGetChildrenWithStat _ _) = OpGetChildrenWithStat"
| "opname_of (ReqMulti _) = OpMulti"

text \<open>The statuses the user callback was invoked with during a call, in order.\<close>

fun callbacks :: "action list \<Rightarrow> status list" where
  "callbacks [] = []"
| "callbacks (Callback _ s # as) = s # callbacks as"
| "callbacks (_ # as) = callbacks as"

text \<open>The watchers registered under a path: none when the path has no entry.\<close>

definition watchers_at :: "(string \<rightharpoonup> 'w list) \<Rightarrow> string \<Rightarrow> 'w list" where
  "watchers_at m path = (case m path of None \<Rightarrow> [] | Some ws \<Rightarrow> ws)"

section \<open>Notions the statements use\<close>

text \<open>
  The field a setter call writes, and the values a call can carry through the wire: the
  body size has 24 bits.
\<close>

fun field_of :: "setter \<Rightarrow> nat" where
  "field_of (SetType _) = 0"
| "field_of (SetId _) = 1"
| "field_of (SetBodyType _) = 2"
| "field_of (SetBodySize _) = 3"
| "field_of (SetExtCount _) = 4"
| "field_of (SetExtLen _) = 5"

fun fits :: "setter \<Rightarrow> bool" where
  "fits (SetBodySize n) = (n < 2 ^ 24)"
| "fits _ = True"

text \<open>Concrete values the examples run on.\<close>

definition example_header :: header where
  "example_header =
     \<lparr>h_type = 3, h_id = 0x01020304, h_body_type = 0x0A0B, h_body_size = 0x00FFEE,
      h_ext_count = 2, h_ext_len = 7\<rparr>"

definition open_session :: "(nat, nat) keeper" where
  "open_session =
     \<lparr>zh = Some 1, listener = True, node_watcher = Map.empty, child_watcher = Map.empty,
      event = None\<rparr>"

definition closed_session :: "(nat, nat) keeper" where
  "closed_session = Close open_session"

definition steady_zookeeper :: "status \<Rightarrow> (nat, nat) zookeeper" where
  "steady_zookeeper s =
     \<lparr>zookeeper_interest = (kOk, 5, 3, 2000), zookeeper_process = (\<lambda>events. s),
      process_callbacks = (\<lambda>k. k), is_unrecoverable = False, kReadable = 1, kWritable = 2\<rparr>"

text \<open>
  A library that fails the delivery of a read event with an ordinary error, would report
  bad arguments for any other flags, and fails the interest query with an ordinary error.
\<close>

definition picky_zookeeper :: "(nat, nat) zookeeper" where
  "picky_zookeeper =
     \<lparr>zookeeper_interest = (kFailure (- 4), 5, 3, 2000),
      zookeeper_process = (\<lambda>events. if events = ZOOKEEPER_READ then kFailure (- 4) else kBadArguments),
      process_callbacks = (\<lambda>k. k), is_unrecoverable = False, kReadable = 1, kWritable = 2\<rparr>"

section \<open>Byte order\<close>

lemma cat16_lo: "(ucast (cat16 hi lo) :: byte) = lo"
  unfolding cat16_def by (rule bit_word_eqI) (simp add: bit_simps)

lemma cat16_hi: "(ucast (drop_bit 8 (cat16 hi lo)) :: byte) = hi"
  unfolding cat16_def by (rule bit_word_eqI) (auto simp: bit_simps dest: bit_imp_le_length)

lemma cat32_b0: "(ucast (cat32 b3 b2 b1 b0) :: byte) = b0"
  unfolding cat32_def by (rule bit_word_eqI) (simp add: bit_simps)

lemma cat32_b1: "(ucast (drop_bit 8 (cat32 b3 b2 b1 b0)) :: byte) = b1"
  unfolding cat32_def by (rule bit_word_eqI) (auto simp: bit_simps dest: bit_imp_le_length)

lemma cat32_b2: "(ucast (drop_bit 16 (cat32 b3 b2 b1 b0)) :: byte) = b2"
  unfolding cat32_def by (rule bit_word_eqI) (auto simp: bit_simps dest: bit_imp_le_length)

lemma cat32_b3: "(ucast (drop_bit 24 (cat32 b3 b2 b1 b0)) :: byte) = b3"
  unfolding cat32_def by (rule bit_word_eqI) (auto simp: bit_simps dest: bit_imp_le_length)

lemmas cat_bytes = cat16_lo cat16_hi cat32_b0 cat32_b1 cat32_b2 cat32_b3

text \<open>Two words with the same bytes are the same word.\<close>

lemma word16_bytes_eqI:
  fixes x y :: "16 word"
  assumes lo: "(ucast x :: byte) = ucast y"
      and hi: "(ucast (drop_bit 8 x) :: byte) = ucast (drop_bit 8 y)"
  shows "x = y"
proof (rule bit_word_eqI)
  fix n assume n: "n < LENGTH(16)"
  show "bit x n = bit y n"
  proof (cases "n < 8")
    case True
    have "bit (ucast x :: byte) n = bit (ucast y :: byte) n" using lo by simp
    with True show ?thesis by (simp add: bit_simps)
  next
    case False
    have "bit (ucast (drop_bit 8 x) :: byte) (n - 8) = bit (ucast (drop_bit 8 y) :: byte) (n - 8)"
      using hi by simp
    moreover have "n - 8 < 8" using False n by simp
    ultimately show ?thesis using False by (simp add: bit_simps)
  qed
qed

lemma word32_bytes_eqI:
  fixes x y :: "32 word"
  assumes b0: "(ucast x :: byte) = ucast y"
      and b1: "(ucast (drop_bit 8 x) :: byte) = ucast (drop_bit 8 y)"
      and b2: "(ucast (drop_bit 16 x) :: byte) = ucast (drop_bit 16 y)"
      and b3: "(ucast (drop_bit 24 x) :: byte) = ucast (drop_bit 24 y)"
  shows "x = y"
proof (rule bit_word_eqI)
  fix n assume n: "n < LENGTH(32)"
  have byte_at: "bit x n = bit y n"
    if k: "k \<le> n" "n < k + 8" and e: "(ucast (drop_bit k x) :: byte) = ucast (drop_bit k y)" for k
  proof -
    have "bit (ucast (drop_bit k x) :: byte) (n - k) = bit (ucast (drop_bit k y) :: byte) (n - k)"
      using e by simp
    moreover have "n - k < 8" using k by arith
    ultimately show ?thesis using k by (simp add: bit_simps)
  qed
  consider "n < 8" | "8 \<le> n" "n < 16" | "16 \<le> n" "n < 24" | "24 \<le> n" "n < 32"
    using n by fastforce
  then show "bit x n = bit y n"
  proof cases
    case 1 then show ?thesis using byte_at [of 0] b0 by simp
  next
    case 2 then show ?thesis using byte_at [of 8] b1 by simp
  next
    case 3 then show ?thesis using byte_at [of 16] b2 by simp
  next
    case 4 then show ?thesis using byte_at [of 24] b3 by simp
  qed
qed

lemma cat16_bytes: "cat16 (ucast (drop_bit 8 v)) (ucast v) = v"
  by (rule word16_bytes_eqI) (simp_all add: cat_bytes)

lemma cat32_bytes:
  "cat32 (ucast (drop_bit 24 v)) (ucast (drop_bit 16 v)) (ucast (drop_bit 8 v)) (ucast v) = v"
  by (rule word32_bytes_eqI) (simp_all add: cat_bytes)

text \<open>
  Whatever the host, a store of \<open>htons v\<close> or \<open>htonl v\<close> leaves the bytes of \<open>v\<close> most
  significant first, and \<open>ntohs\<close>/\<open>ntohl\<close> of a load reads them so.
\<close>

lemma store_htons: "store_u16 le buf off (htons le v) = put_be16 buf off v"
  by (simp add: store_u16_def htons_def put_be16_def bswap_16_def cat_bytes)

lemma store_htonl: "store_u32 le buf off (htonl le v) = put_be32 buf off v"
  by (simp add: store_u32_def htonl_def put_be32_def bswap_32_def cat_bytes)

lemma load_ntohs: "ntohs le (load_u16 le buf off) = get_be16 buf off"
  by (simp add: ntohs_def load_u16_def get_be16_def bswap_16_def cat_bytes)

lemma load_ntohl: "ntohl le (load_u32 le buf off) = get_be32 buf off"
  by (simp add: ntohl_def load_u32_def get_be32_def bswap_32_def cat_bytes)

section \<open>Setters and getters of the header\<close>

lemma set_id_be: "set_id le i buf = put_be32 buf 2 i"
  by (simp add: set_id_def store_htonl)
lemma set_body_type_be: "set_body_type le bt buf = put_be16 buf 6 bt"
  by (simp add: set_body_type_def store_htons)
lemma set_ext_len_be: "set_ext_len le l buf = put_be16 buf 12 l"
  by (simp add: set_ext_len_def store_htons)
lemma set_body_size_be:
  "set_body_size le n buf = (put_be32 buf 8 (push_bit 8 n))[11 := buf ! 11]"
  by (simp add: set_body_size_def store_htonl Let_def)

lemma Parser_id_be: "Parser_id le buf = get_be32 buf 2"
  by (simp add: Parser_id_def load_ntohl)
lemma Parser_body_type_be: "Parser_body_type le buf = get_be16 buf 6"
  by (simp add: Parser_body_type_def load_ntohs)
lemma Parser_ext_len_be: "Parser_ext_len le buf = get_be16 buf 12"
  by (simp add: Parser_ext_len_def load_ntohs)
lemma Parser_body_size_be: "Parser_body_size le buf = drop_bit 8 (get_be32 buf 8)"
  by (simp add: Parser_body_size_def load_ntohl)

lemmas be_form = set_id_be set_body_type_be set_ext_len_be set_body_size_be
  Parser_id_be Parser_body_type_be Parser_ext_len_be Parser_body_size_be
  set_type_def set_ext_count_def Parser_type_def Parser_ext_count_def

lemma drop8_cat32: "drop_bit 8 (cat32 a b c d) = cat32 0 a b c"
  by (rule word32_bytes_eqI) (simp_all add: cat_bytes)

lemma body_size_bytes:
  fixes n :: "32 word"
  assumes "n < 2 ^ 24"
  shows "cat32 0 (ucast (drop_bit 16 n)) (ucast (drop_bit 8 n)) (ucast n) = n"
proof -
  have "take_bit 24 n = n"
    using less_mask_eq [OF assms] by (simp add: take_bit_eq_mask)
  then have "drop_bit 24 n = 0"
    by (simp only: take_bit_eq_self_iff_drop_bit_eq_0)
  then have "(ucast (drop_bit 24 n) :: byte) = 0" by simp
  with cat32_bytes [of n] show ?thesis by simp
qed

lemma push8_b3: "(ucast (drop_bit 24 (push_bit 8 (n :: 32 word))) :: byte) = ucast (drop_bit 16 n)"
  by (rule bit_word_eqI) (auto simp: bit_simps)
lemma push8_b2: "(ucast (drop_bit 16 (push_bit 8 (n :: 32 word))) :: byte) = ucast (drop_bit 8 n)"
  by (rule bit_word_eqI) (auto simp: bit_simps)
lemma push8_b1: "(ucast (drop_bit 8 (push_bit 8 (n :: 32 word))) :: byte) = ucast n"
  by (rule bit_word_eqI) (auto simp: bit_simps)

lemma length_run_setter [simp]: "length (run_setter le buf c) = length buf"
  by (cases c) (simp_all add: be_form put_be16_def put_be32_def)

lemma reads_back_own:
  assumes "kByteSize \<le> length buf" "fits c"
  shows "reads_back le (run_setter le buf c) c"
  using assms
  by (cases c)
     (simp_all add: be_form kByteSize_def put_be16_def put_be32_def get_be16_def get_be32_def
        cat16_bytes cat32_bytes drop8_cat32 push8_b3 push8_b2 push8_b1 body_size_bytes)

lemma reads_back_frame:
  assumes "kByteSize \<le> length buf" "field_of c \<noteq> field_of d"
  shows "reads_back le (run_setter le buf d) c = reads_back le buf c"
  using assms
  by (cases c; cases d)
     (simp_all add: be_form kByteSize_def put_be16_def put_be32_def get_be16_def get_be32_def
        drop8_cat32)

lemma length_run_setters [simp]: "length (run_setters le buf calls) = length buf"
  unfolding run_setters_def by (induction calls arbitrary: buf) simp_all

lemma run_setters_snoc: "run_setters le buf (calls @ [c]) = run_setter le (run_setters le buf calls) c"
  by (simp add: run_setters_def)

lemma field_of_setters_of:
  "c \<in> set (setters_of H) \<Longrightarrow> d \<in> set (setters_of H) \<Longrightarrow> field_of c = field_of d \<Longrightarrow> c = d"
  by (auto simp: setters_of_def)

lemma fits_setters_of: "h_body_size H < 2 ^ 24 \<Longrightarrow> c \<in> set (setters_of H) \<Longrightarrow> fits c"
  by (auto simp: setters_of_def)

lemma run_setters_reads_back:
  assumes len: "kByteSize \<le> length buf" and sz: "h_body_size H < 2 ^ 24"
  shows "set calls \<subseteq> set (setters_of H) \<Longrightarrow> c \<in> set calls \<Longrightarrow>
         reads_back le (run_setters le buf calls) c"
proof (induction calls rule: rev_induct)
  case Nil
  then show ?case by simp
next
  case (snoc d calls)
  have len': "kByteSize \<le> length (run_setters le buf calls)" using len by simp
  have d: "d \<in> set (setters_of H)" using snoc.prems(1) by simp
  show ?case
  proof (cases "c = d")
    case True
    then show ?thesis
      using reads_back_own [OF len' fits_setters_of [OF sz d]] by (simp add: run_setters_snoc)
  next
    case False
    then have c: "c \<in> set calls" using snoc.prems(2) by simp
    then have "c \<in> set (setters_of H)" using snoc.prems(1) by auto
    with d False have "field_of c \<noteq> field_of d" using field_of_setters_of by blast
    then show ?thesis
      using reads_back_frame [OF len'] snoc.IH c snoc.prems(1) by (simp add: run_setters_snoc)
  qed
qed

lemma Build_be:
  "Build le magic buf = put_be16 (buf[0 := magic]) 14 (crc_ccitt (take 14 (buf[0 := magic])))"
  by (simp add: Build_def Let_def store_htons kByteSize_def)

lemma IsValid_be:
  "IsValid le magic buf \<longleftrightarrow> buf ! 0 = magic \<and> crc_ccitt (take 14 buf) = get_be16 buf 14"
  by (auto simp: IsValid_def Let_def load_ntohs kByteSize_def)

lemma length_Build [simp]: "length (Build le magic buf) = length buf"
  by (simp add: Build_be put_be16_def)

lemma take14_Build: "take 14 (Build le magic buf) = take 14 (buf[0 := magic])"
  by (simp add: Build_be put_be16_def)

lemma Build_nth:
  "0 < i \<Longrightarrow> i < 14 \<Longrightarrow> Build le magic buf ! i = buf ! i"
  by (simp add: Build_be put_be16_def)

lemma IsValid_Build:
  assumes "kByteSize \<le> length buf"
  shows "IsValid le magic (Build le magic buf)"
proof -
  have "0 < length buf" using assms by (auto simp: kByteSize_def)
  then have "Build le magic buf ! 0 = magic"
    by (simp add: Build_be put_be16_def)
  moreover have "get_be16 (Build le magic buf) 14 = crc_ccitt (take 14 (buf[0 := magic]))"
    using assms by (simp add: Build_be put_be16_def get_be16_def kByteSize_def cat16_bytes)
  ultimately show ?thesis
    by (simp add: IsValid_be take14_Build)
qed

lemma reads_back_Build:
  "reads_back le (Build le magic buf) c = reads_back le buf c"
  by (cases c) (simp_all add: be_form get_be16_def get_be32_def Build_nth)

lemma parse_header_eq:
  assumes "\<And>c. c \<in> set (setters_of H) \<Longrightarrow> reads_back le buf c"
  shows "parse_header le buf = H"
proof -
  have "reads_back le buf (SetType (h_type H))" "reads_back le buf (SetId (h_id H))"
    "reads_back le buf (SetBodyType (h_body_type H))" "reads_back le buf (SetBodySize (h_body_size H))"
    "reads_back le buf (SetExtCount (h_ext_count H))" "reads_back le buf (SetExtLen (h_ext_len H))"
    by (rule assms, simp add: setters_of_def)+
  then show ?thesis by (simp add: parse_header_def)
qed

text \<open>
  The layout on the wire, on a concrete header: type at byte 1, correlation id at bytes
  2 to 5, body type at 6 and 7, body size at 8 to 10, extension count at 11, extension
  length at 12 and 13, most significant byte first on either host and in either order
  of the calls.
\<close>

lemma example_layout:
  "run_setters True (replicate 16 0) (rev (setters_of example_header))
     = [0, 3, 1, 2, 3, 4, 0x0A, 0x0B, 0, 0xFF, 0xEE, 2, 0, 7, 0, 0]
   \<and> run_setters False (replicate 16 0) (setters_of example_header)
     = [0, 3, 1, 2, 3, 4, 0x0A, 0x0B, 0, 0xFF, 0xEE, 2, 0, 7, 0, 0]"
  by code_simp

text \<open>
  Claim C1. Take a header \<open>H\<close> whose body size is below \<open>2 ^ 24\<close> and any buffer of
  at least \<open>kByteSize\<close> bytes. Run the six setter calls of \<open>H\<close> on it in any order
  (repeats allowed) and then \<open>Build\<close>. The parser's six getters read exactly the
  fields of \<open>H\<close> from the result, and \<open>IsValid\<close> accepts it. This holds on a host of
  either byte order and for any magic constant.
\<close>

theorem header_roundtrip:
  assumes "kByteSize \<le> length buf" and "h_body_size H < 2 ^ 24"
      and "set calls = set (setters_of H)"
  shows "parse_header le (Build le magic (run_setters le buf calls)) = H
         \<and> IsValid le magic (Build le magic (run_setters le buf calls))"
proof
  show "parse_header le (Build le magic (run_setters le buf calls)) = H"
  proof (rule parse_header_eq)
    fix c assume "c \<in> set (setters_of H)"
    then have "c \<in> set calls" using assms(3) by simp
    then have "reads_back le (run_setters le buf calls) c"
      using run_setters_reads_back [OF assms(1,2)] assms(3) by simp
    then show "reads_back le (Build le magic (run_setters le buf calls)) c"
      by (simp add: reads_back_Build)
  qed
  show "IsValid le magic (Build le magic (run_setters le buf calls))"
    using assms(1) by (simp add: IsValid_Build)
qed

theorem header_roundtrip_witness:
  "kByteSize \<le> length (replicate 16 (0 :: byte))
   \<and> h_body_size example_header < 2 ^ 24
   \<and> parse_header True
         (Build True 0x7E (run_setters True (replicate 16 0) (rev (setters_of example_header))))
       = example_header
   \<and> IsValid True 0x7E
         (Build True 0x7E (run_setters True (replicate 16 0) (rev (setters_of example_header))))"
  using header_roundtrip [of "replicate 16 0" example_header "rev (setters_of example_header)" True "0x7E"]
  by (simp add: kByteSize_def example_header_def)

text \<open>
  Claim C2. On a buffer of at least \<open>kByteSize\<close> bytes, \<open>set_ext_count c\<close> followed by
  \<open>set_body_size n\<close> leaves byte 11 equal to \<open>c\<close>, for every \<open>c\<close> and every \<open>n\<close> (below
  \<open>2 ^ 24\<close> or not); \<open>set_body_size\<close> leaves every byte other than bytes 8, 9 and 10 as
  it was and keeps the buffer's length.
\<close>

theorem set_body_size_keeps_ext_count:
  assumes "kByteSize \<le> length buf"
  shows "Parser_ext_count (set_body_size le n (set_ext_count c buf)) = c
         \<and> (\<forall>i. i \<notin> {8, 9, 10} \<longrightarrow> set_body_size le n buf ! i = buf ! i)
         \<and> length (set_body_size le n buf) = length buf"
  using assms
  by (auto simp: be_form put_be32_def kByteSize_def nth_list_update)

theorem set_body_size_keeps_ext_count_witness:
  "kByteSize \<le> length (replicate 16 (0 :: byte))
   \<and> Parser_ext_count (set_body_size False 0x123456 (set_ext_count 9 (replicate 16 0))) = 9
   \<and> set_body_size False 0x123456 (replicate 16 0) ! 11 = replicate 16 0 ! 11"
  using set_body_size_keeps_ext_count [of "replicate 16 0" False "0x123456" 9]
  by (simp add: kByteSize_def)

section \<open>The checksum tells any one changed byte\<close>

text \<open>
  The register computes the CRC-CCITT of the catalogues (initial value \<open>0xFFFF\<close>): the
  checksum of the ASCII digits 1 to 9 is \<open>0x29B1\<close>.
\<close>

lemma crc_ccitt_check_value:
  "crc_ccitt [0x31, 0x32, 0x33, 0x34, 0x35, 0x36, 0x37, 0x38, 0x39] = 0x29B1"
  by code_simp

lemma shl1_bit: "bit (push_bit 1 (c :: 16 word)) n \<longleftrightarrow> 1 \<le> n \<and> n < 16 \<and> bit c (n - 1)"
  unfolding bit_push_bit_iff by auto

lemma crc_shift_bit0: "bit (crc_shift c) 0 = bit c 15"
  unfolding crc_shift_def
  by (cases "bit c 15") (simp_all only: if_True if_False bit_xor_iff shl1_bit, simp_all add: bit_0)

lemma xor_cancel_left: 
  assumes "(c :: 16 word) XOR x = c XOR y" shows "x = y"
proof -
  have "c XOR (c XOR x) = c XOR (c XOR y)" using assms by simp
  then show ?thesis by (simp flip: xor.assoc)
qed

lemma xor_cancel_right:
  assumes "(x :: 16 word) XOR k = y XOR k" shows "x = y"
proof -
  have "(x XOR k) XOR k = (y XOR k) XOR k" using assms by simp
  then show ?thesis by (simp add: xor.assoc)
qed

lemma crc_shift_inj: 
  assumes eq: "crc_shift a = crc_shift b" shows "a = b"
proof -
  have top: "bit a 15 = bit b 15"
    using eq crc_shift_bit0 [of a] crc_shift_bit0 [of b] by simp
  have sh: "push_bit 1 a = push_bit 1 b"
  proof (cases "bit a 15")
    case True
    with top eq have "push_bit 1 a XOR (0x1021 :: 16 word) = push_bit 1 b XOR 0x1021"
      by (simp only: crc_shift_def if_True)
    then show ?thesis by (rule xor_cancel_right)
  next
    case False
    with top eq show ?thesis by (simp only: crc_shift_def if_False)
  qed
  show "a = b"
  proof (rule bit_word_eqI)
    fix n assume n: "n < LENGTH(16)"
    show "bit a n = bit b n"
    proof (cases "n = 15")
      case True
      with top show ?thesis by simp
    next
      case False
      with n have "Suc n < 16" by simp
      moreover have "bit (push_bit 1 a) (Suc n) = bit (push_bit 1 b) (Suc n)"
        by (simp only: sh)
      ultimately show ?thesis by (simp only: shl1_bit) simp
    qed
  qed
qed

lemma crc_shift_funpow_inj: "(crc_shift ^^ k) a = (crc_shift ^^ k) b \<Longrightarrow> a = b"
proof (induction k)
  case 0
  then show ?case by simp
next
  case (Suc k)
  then have "crc_shift ((crc_shift ^^ k) a) = crc_shift ((crc_shift ^^ k) b)" by simp
  then have "(crc_shift ^^ k) a = (crc_shift ^^ k) b" by (rule crc_shift_inj)
  then show ?case by (rule Suc.IH)
qed

lemma byte_high_inj:
  assumes "push_bit 8 (ucast (x :: byte) :: 16 word) = push_bit 8 (ucast y)"
  shows "x = y"
proof -
  have "cat16 x 0 = cat16 y 0" using assms by (simp add: cat16_def)
  then have "(ucast (drop_bit 8 (cat16 x 0)) :: byte) = ucast (drop_bit 8 (cat16 y 0))" by simp
  then show "x = y" by (simp only: cat16_hi)
qed

lemma process_byte_inj_state: 
  assumes "process_byte c1 b = process_byte c2 b" shows "c1 = c2"
proof -
  have "c1 XOR push_bit 8 (ucast b) = c2 XOR push_bit 8 (ucast b)"
    using assms unfolding process_byte_def by (rule crc_shift_funpow_inj)
  then show ?thesis by (rule xor_cancel_right)
qed

lemma process_byte_inj_byte:
  assumes "process_byte c b1 = process_byte c b2" shows "b1 = b2"
proof -
  have "c XOR push_bit 8 (ucast b1) = c XOR push_bit 8 (ucast b2)"
    using assms unfolding process_byte_def by (rule crc_shift_funpow_inj)
  then have "push_bit 8 (ucast b1 :: 16 word) = push_bit 8 (ucast b2)" by (rule xor_cancel_left)
  then show ?thesis by (rule byte_high_inj)
qed

lemma process_bytes_inj_state: "process_bytes c1 bs = process_bytes c2 bs \<Longrightarrow> c1 = c2"
proof (induction bs arbitrary: c1 c2)
  case Nil
  then show ?case by (simp add: process_bytes_def)
next
  case (Cons x xs)
  then have "process_bytes (process_byte c1 x) xs = process_bytes (process_byte c2 x) xs"
    by (simp add: process_bytes_def)
  then have "process_byte c1 x = process_byte c2 x" by (rule Cons.IH)
  then show ?case by (rule process_byte_inj_state)
qed

lemma process_bytes_one_byte:
  "i < length bs \<Longrightarrow> b \<noteq> bs ! i \<Longrightarrow> process_bytes c (bs[i := b]) \<noteq> process_bytes c bs"
proof (induction bs arbitrary: c i)
  case Nil
  then show ?case by simp
next
  case (Cons x xs)
  show ?case
  proof (cases i)
    case 0
    with Cons.prems have "b \<noteq> x" by simp
    then have "process_byte c b \<noteq> process_byte c x" using process_byte_inj_byte by blast
    then have "process_bytes (process_byte c b) xs \<noteq> process_bytes (process_byte c x) xs"
      using process_bytes_inj_state by blast
    with 0 show ?thesis by (simp add: process_bytes_def)
  next
    case (Suc j)
    with Cons.prems have "j < length xs" "b \<noteq> xs ! j" by simp_all
    from Cons.IH [OF this, of "process_byte c x"] Suc show ?thesis
      by (simp add: process_bytes_def)
  qed
qed

lemma crc_ccitt_one_byte:
  "i < length bs \<Longrightarrow> b \<noteq> bs ! i \<Longrightarrow> crc_ccitt (bs[i := b]) \<noteq> crc_ccitt bs"
  unfolding crc_ccitt_def by (rule process_bytes_one_byte)

lemma flipped_byte_differs:
  assumes "j < 8"
  shows "(x :: byte) XOR push_bit j 1 \<noteq> x"
proof
  assume "x XOR push_bit j 1 = x"
  then have "bit (x XOR push_bit j 1) j = bit x j" by simp
  with assms show False by (simp add: bit_simps)
qed

text \<open>
  Claim C8. For a frame that \<open>Build\<close> produced on a buffer of at least \<open>kByteSize\<close>
  bytes, flipping any one bit \<open>j < 8\<close> of any one byte \<open>i < 14\<close> gives a buffer that
  \<open>IsValid\<close> rejects: a flip in byte 0 breaks the magic byte, a flip in bytes 1 to 13
  changes the checksum of the first 14 bytes while the stored checksum stays.
\<close>

theorem single_bit_flip_detected:
  assumes len: "kByteSize \<le> length buf" and i: "i < 14" and j: "j < 8"
  shows "\<not> IsValid le magic (flip_bit_at (Build le magic buf) i j)"
proof -
  define F where "F = Build le magic buf"
  define v where "v = (F ! i) XOR push_bit j 1"
  have lenF: "16 \<le> length F" using len by (simp add: F_def kByteSize_def)
  have valid: "F ! 0 = magic" "crc_ccitt (take 14 F) = get_be16 F 14"
    using IsValid_Build [OF len, of le magic] by (simp_all add: IsValid_be F_def)
  have v: "v \<noteq> F ! i" unfolding v_def using j by (rule flipped_byte_differs)
  have flip: "flip_bit_at F i j = F[i := v]" by (simp add: flip_bit_at_def v_def)
  show ?thesis
  proof (cases "i = 0")
    case True
    have "0 < length F" using lenF by auto
    with True v valid(1) have "F[i := v] ! 0 \<noteq> magic" by simp
    then show ?thesis by (simp add: IsValid_be flip F_def [symmetric])
  next
    case False
    have "i < length (take 14 F)" using i lenF by simp
    moreover have "v \<noteq> take 14 F ! i" using v i by simp
    ultimately have "crc_ccitt ((take 14 F)[i := v]) \<noteq> crc_ccitt (take 14 F)"
      by (rule crc_ccitt_one_byte)
    moreover have "take 14 (F[i := v]) = (take 14 F)[i := v]" by (rule take_update_swap)
    moreover have "get_be16 (F[i := v]) 14 = get_be16 F 14"
      using i by (simp add: get_be16_def)
    ultimately have "crc_ccitt (take 14 (F[i := v])) \<noteq> get_be16 (F[i := v]) 14"
      using valid(2) by simp
    then show ?thesis by (simp add: IsValid_be flip F_def [symmetric])
  qed
qed


theorem single_bit_flip_detected_witness:
  "kByteSize \<le> length (replicate 16 (0 :: byte)) \<and> (5 :: nat) < 14 \<and> (3 :: nat) < 8
   \<and> \<not> IsValid False 0x7E (flip_bit_at (Build False 0x7E (replicate 16 0)) 5 3)"
  using single_bit_flip_detected [of "replicate 16 0" 5 3 False "0x7E"]
  by (simp add: kByteSize_def)

section \<open>The extension fields: validation and lookup\<close>

declare sum_lengths.simps [simp del]

lemma peek_inside: "n < length buf \<Longrightarrow> peek buf (int n) = Some (buf ! n)"
  by (simp add: peek_def)

lemma sum_lengths_eq:
  "i \<le> n \<Longrightarrow> 2 * n \<le> length buf \<Longrightarrow>
   sum_lengths buf n i len = Some (len + of_nat (\<Sum>k = i..<n. unat (buf ! (2 * k + 1))))"
proof (induction buf n i len rule: sum_lengths.induct)
  case (1 buf n i len)
  show ?case
  proof (cases "i < n")
    case False
    with "1.prems" show ?thesis by (subst sum_lengths.simps) simp
  next
    case True
    then have inside: "2 * i + 1 < length buf" using "1.prems" by simp
    have pos: "int i * kUnitSize + 1 = int (2 * i + 1)" by (simp add: kUnitSize_def)
    have pk: "peek buf (int i * kUnitSize + 1) = Some (buf ! (2 * i + 1))"
      unfolding pos using inside by (rule peek_inside)
    have IH: "sum_lengths buf n (i + 1) (len + ucast (buf ! (2 * i + 1))) =
        Some (len + ucast (buf ! (2 * i + 1)) + of_nat (\<Sum>k = i + 1..<n. unat (buf ! (2 * k + 1))))"
      using "1.IH" [OF True refl pk] True "1.prems" by simp
    have split: "(\<Sum>k = i..<n. unat (buf ! (2 * k + 1))) =
        unat (buf ! (2 * i + 1)) + (\<Sum>k = i + 1..<n. unat (buf ! (2 * k + 1)))"
      using True by (simp add: sum.atLeast_Suc_lessThan)
    have "sum_lengths buf n i len = sum_lengths buf n (i + 1) (len + ucast (buf ! (2 * i + 1)))"
      using True pk by (subst sum_lengths.simps) (simp add: Let_def)
    then show ?thesis
      by (simp only: IH split of_nat_add of_nat_unat add.assoc)
  qed
qed

lemma lengths_sum_small:
  assumes "n \<le> 255"
  shows "(\<Sum>k = 0..<n. unat (buf ! (2 * k + 1) :: byte)) < 2 ^ 16"
proof -
  have "unat (b :: byte) \<le> 255" for b
    using unsigned_less [of b, where 'a = nat] by simp
  then have "(\<Sum>k = 0..<n. unat (buf ! (2 * k + 1))) \<le> (\<Sum>k = 0..<n. 255)"
    by (intro sum_mono) simp
  also have "\<dots> = n * 255" by simp
  also have "\<dots> \<le> 255 * 255" using assms by simp
  finally show ?thesis by simp
qed

lemma sum_upto_2: "(\<Sum>k = 0..<(2::nat). g k) = g 0 + (g 1 :: nat)"
  by (simp add: numeral_2_eq_2)

text \<open>
  Claim C4. When the buffer holds the \<open>ext_count\<close> fields (two bytes each), the
  validation reads inside the buffer and succeeds if and only if the length bytes of the
  fields sum to the declared extension length exactly, with no wrap-around of the 16-bit
  accumulator; in particular it fails when the declared length is the sum plus one.
\<close>

theorem Ext_IsValid_iff_exact_sum:
  assumes "2 * unat ext_count \<le> length buf"
  shows "Ext_IsValid ext_count buf ext_len =
           Some ((\<Sum>k = 0..<unat ext_count. unat (buf ! (2 * k + 1))) = unat ext_len)
         \<and> (unat ext_len = (\<Sum>k = 0..<unat ext_count. unat (buf ! (2 * k + 1))) + 1
              \<longrightarrow> Ext_IsValid ext_count buf ext_len = Some False)"
proof -
  define S where "S = (\<Sum>k = 0..<unat ext_count. unat (buf ! (2 * k + 1)))"
  have "unat ext_count \<le> 255"
    using unsigned_less [of ext_count, where 'a = nat] by simp
  then have small: "S < 2 ^ 16" unfolding S_def by (rule lengths_sum_small)
  have run: "sum_lengths buf (unat ext_count) 0 0 = Some (of_nat S)"
    using sum_lengths_eq [of 0 "unat ext_count" buf 0] assms by (simp add: S_def)
  have "unat (of_nat S :: 16 word) = S"
    using small by (simp add: unat_of_nat)
  then have "(of_nat S = ext_len) = (S = unat ext_len)"
    by (simp add: word_unat_eq_iff)
  then have "Ext_IsValid ext_count buf ext_len = Some (S = unat ext_len)"
    by (auto simp: Ext_IsValid_def run)
  then show ?thesis by (simp add: S_def)
qed

theorem Ext_IsValid_iff_exact_sum_witness:
  "2 * unat (2 :: byte) \<le> length [1, 3, 2, 4 :: byte]
   \<and> Ext_IsValid 2 [1, 3, 2, 4] 7 = Some True
   \<and> Ext_IsValid 2 [1, 3, 2, 4] 8 = Some False"
  using Ext_IsValid_iff_exact_sum [of 2 "[1, 3, 2, 4]" 7]
        Ext_IsValid_iff_exact_sum [of 2 "[1, 3, 2, 4]" 8]
  by (simp add: sum_upto_2)

text \<open>
  Claim C3 asks that \<open>GetExtItem\<close> report failure whenever the index is at least the
  count. The guard of the code is \<open>index > ext_count_\<close>, so the index equal to the count
  passes it: with one field in the list, index 1 returns true with the two bytes that
  follow the list. \<open>GetExtItem\<close> returns false exactly when the index exceeds the count.
\<close>

theorem GetExtItem_accepts_index_eq_count:
  "GetExtItem 1 [7, 3, 9, 4] 1 = ReturnsTrue 9 4"
  by (simp add: GetExtItem_def peek_def kUnitSize_def)

lemma GetExtItem_ReturnsFalse_iff: "GetExtItem c buf index = ReturnsFalse \<longleftrightarrow> index > uint c"
  by (auto simp: GetExtItem_def Let_def split: option.splits)

section \<open>The asynchronous calls\<close>

lemma push_watcher_eq: "push_watcher m path w = Some (m(path \<mapsto> watchers_at m path @ [w]))"
  by (cases "m path") (simp_all add: push_watcher_def watchers_at_def Let_def)

lemmas async_defs = AddAuth_def Create_def Delete_def Exists_def Get_def Set_def GetAcl_def
  SetAcl_def GetChildren_def GetChildrenWithStat_def

lemma make_results_eq:
  "make_results mk ops idx cb =
     cb\<lparr>results := results cb @ map (\<lambda>(op, i). mk op i) (zip ops [idx ..< idx + length ops])\<rparr>"
proof (induction ops arbitrary: idx cb)
  case Nil
  then show ?case by simp
next
  case (Cons op ops)
  have "[idx ..< idx + length (op # ops)] = idx # [idx + 1 ..< (idx + 1) + length ops]"
    by (simp add: upt_rec)
  then show ?case by (simp add: Cons.IH)
qed

lemma make_results_count: "count (make_results mk ops idx cb) = count cb"
  by (simp add: make_results_eq)

lemma make_results_length:
  "length (results (make_results mk ops idx cb)) = length (results cb) + length ops"
  by (simp add: make_results_eq)

lemma call_closed:
  "\<not> IsOpen k \<Longrightarrow> call mk rc req k = (k, [Callback (opname_of req) kInvalidState])"
  by (cases req) (simp_all add: async_defs Multi_def)

lemma call_failed:
  assumes "IsOpen k" and "\<not> IsOk rc"
  shows "\<exists>sub. call mk rc req k = (k, [sub, Callback (opname_of req) rc]) \<and> callbacks [sub] = []"
  using assms
  by (cases req)
     (simp_all add: async_defs Multi_def Let_def make_results_length make_results_count)

text \<open>
  Claim C5. For each of the eleven asynchronous calls: when the session is not open, or
  the submission to the foreign library does not return success, the call leaves the
  adapter as it was (so both watcher maps are unchanged) and invokes the callback
  exactly once, with \<open>kInvalidState\<close> when the session is closed and with the
  submission's status otherwise; on a closed session the callback is all that happens,
  nothing is submitted.
\<close>

theorem failed_call_reports_once:
  assumes "\<not> IsOpen k \<or> \<not> IsOk rc"
  shows "fst (call mk rc req k) = k
         \<and> node_watcher (fst (call mk rc req k)) = node_watcher k
         \<and> child_watcher (fst (call mk rc req k)) = child_watcher k
         \<and> callbacks (snd (call mk rc req k)) = [if \<not> IsOpen k then kInvalidState else rc]
         \<and> (\<not> IsOpen k \<longrightarrow> snd (call mk rc req k) = [Callback (opname_of req) kInvalidState])"
proof (cases "IsOpen k")
  case False
  then show ?thesis by (simp add: call_closed)
next
  case True
  with assms have "\<not> IsOk rc" by simp
  from call_failed [OF True this, of mk req]
  obtain sub where "call mk rc req k = (k, [sub, Callback (opname_of req) rc])"
    and "callbacks [sub] = []" by blast
  with True show ?thesis by (cases sub) simp_all
qed

theorem failed_call_reports_once_witness:
  "\<not> IsOpen closed_session
   \<and> call (\<lambda>op i. op + i) kOk (ReqGet ''/a'' (Some 4)) closed_session
       = (closed_session, [Callback OpGet kInvalidState])
   \<and> IsOpen open_session \<and> \<not> IsOk (kFailure (- 4))
   \<and> fst (call (\<lambda>op i. op + i) (kFailure (- 4)) (ReqGetChildren ''/a'' (Some 4)) open_session)
       = open_session
   \<and> callbacks (snd (call (\<lambda>op i. op + i) (kFailure (- 4)) (ReqGetChildren ''/a'' (Some 4)) open_session))
       = [kFailure (- 4)]"
  using failed_call_reports_once [of closed_session kOk "\<lambda>op i. op + i" "ReqGet ''/a'' (Some 4)"]
        failed_call_reports_once [of open_session "kFailure (- 4)" "\<lambda>op i. op + i" "ReqGetChildren ''/a'' (Some 4)"]
  by (auto simp: closed_session_def Close_def open_session_def IsOpen_def IsOk_def prod_eq_iff)

text \<open>What one call does when the session is open and the submission succeeds.\<close>

text \<open>
  \<open>UpdateEvent\<close> on an open session: unless the interest query reports bad arguments,
  it arms the wait the query asks for, with the timeout the query gave when it succeeded
  and 100 milliseconds when it failed.
\<close>

lemma UpdateEvent_open:
  assumes "IsOpen k" and "zookeeper_interest zk = (s, fd, i, tv)" and "\<not> IsBadArguments s"
  shows "UpdateEvent zk k =
           Some (k\<lparr>event := Some (fd,
                   (if i AND ZOOKEEPER_READ \<noteq> 0 then kReadable zk else 0)
                     OR (if i AND ZOOKEEPER_WRITE \<noteq> 0 then kWritable zk else 0),
                   if IsOk s then tv else 100)\<rparr>)"
  using assms by (simp add: UpdateEvent_def Interest_def Let_def)

text \<open>
  Claim C6 says that the handler re-arms exactly when the session is open and not
  unrecoverable, and that no failed \<open>Process\<close> stops it. The code asserts with \<open>CHECK\<close>
  that neither \<open>Process\<close> nor the following \<open>Interest\<close> reports bad arguments: on a
  bad-arguments status from \<open>Process\<close> the handler ends the process without arming a
  wait, although the session is open and recoverable.
\<close>

theorem HandleEvent_bad_arguments_aborts:
  "\<not> IsOk (fst (Process (steady_zookeeper kBadArguments) ZOOKEEPER_READ open_session))
   \<and> IsOpen (snd (Process (steady_zookeeper kBadArguments) ZOOKEEPER_READ open_session))
   \<and> \<not> IsUnrecoverable (steady_zookeeper kBadArguments)
         (snd (Process (steady_zookeeper kBadArguments) ZOOKEEPER_READ open_session))
   \<and> HandleEvent (steady_zookeeper kBadArguments) 1 open_session = Aborted"
  by (simp add: steady_zookeeper_def open_session_def Process_def IsOpen_def IsBadArguments_def
        IsOk_def IsUnrecoverable_def HandleEvent_def ZOOKEEPER_READ_def ZOOKEEPER_WRITE_def Let_def)

text \<open>
  Claim C6, amended. Let \<open>interest\<close> be the flags the handler delivers and \<open>k1\<close> the
  adapter after \<open>Process\<close> has delivered them. Provided that this \<open>Process\<close> call does
  not report bad arguments, and that the \<open>Interest\<close> query does not either in case the
  session is then open and not unrecoverable (the only case in which the query is made),
  no \<open>CHECK\<close> fails and:
  \<^item> the handler arms another wait if and only if the session is then open and not
    unrecoverable, whatever status, success or failure, \<open>Process\<close> returned;
  \<^item> when it does, the adapter is \<open>k1\<close> with exactly the wait the interest query asks
    for (its descriptor, its flags translated, its timeout, or 100 milliseconds when the
    query failed);
  \<^item> when it does not, the adapter is \<open>k1\<close> as \<open>Process\<close> left it.
\<close>

theorem HandleEvent_rearms_iff:
  assumes flags: "interest = (if events AND kReadable zk \<noteq> 0 then ZOOKEEPER_READ else 0)
                               OR (if events AND kWritable zk \<noteq> 0 then ZOOKEEPER_WRITE else 0)"
      and after: "k1 = snd (Process zk interest k)"
      and proc: "\<not> IsBadArguments (fst (Process zk interest k))"
      and intr: "IsOpen k1 \<and> \<not> IsUnrecoverable zk k1
                   \<longrightarrow> \<not> IsBadArguments (fst (zookeeper_interest zk))"
  shows "HandleEvent zk events k \<noteq> Aborted
         \<and> ((\<exists>k2 w. HandleEvent zk events k = Rearmed k2 \<and> event k2 = Some w) \<longleftrightarrow>
              IsOpen k1 \<and> \<not> IsUnrecoverable zk k1)
         \<and> (IsOpen k1 \<and> \<not> IsUnrecoverable zk k1 \<longrightarrow>
              (case zookeeper_interest zk of
                 (s, fd, i, tv) \<Rightarrow>
                   HandleEvent zk events k =
                     Rearmed (k1\<lparr>event := Some (fd,
                                (if i AND ZOOKEEPER_READ \<noteq> 0 then kReadable zk else 0)
                                  OR (if i AND ZOOKEEPER_WRITE \<noteq> 0 then kWritable zk else 0),
                                if IsOk s then tv else 100)\<rparr>)))
         \<and> (\<not> (IsOpen k1 \<and> \<not> IsUnrecoverable zk k1) \<longrightarrow> HandleEvent zk events k = Stopped k1)"
proof -
  have i2: "(if events AND kWritable zk \<noteq> 0
             then (if events AND kReadable zk \<noteq> 0 then 0 OR ZOOKEEPER_READ else 0) OR ZOOKEEPER_WRITE
             else (if events AND kReadable zk \<noteq> 0 then 0 OR ZOOKEEPER_READ else 0)) = interest"
    using flags by simp
  obtain st where P: "Process zk interest k = (st, k1)"
    using after by (cases "Process zk interest k") auto
  have st: "\<not> IsBadArguments st" using proc P by simp
  have H: "HandleEvent zk events k =
          (if IsOpen k1 \<and> \<not> IsUnrecoverable zk k1 then
             (case UpdateEvent zk k1 of None \<Rightarrow> Aborted | Some k2 \<Rightarrow> Rearmed k2)
           else Stopped k1)"
    using st by (simp add: HandleEvent_def Let_def i2 P)
  show ?thesis
  proof (cases "IsOpen k1 \<and> \<not> IsUnrecoverable zk k1")
    case False
    with H have "HandleEvent zk events k = Stopped k1" by simp
    with False show ?thesis by simp
  next
    case True
    obtain s fd i tv where Z: "zookeeper_interest zk = (s, fd, i, tv)"
      by (cases "zookeeper_interest zk") auto
    with intr True have "\<not> IsBadArguments s" by simp
    from UpdateEvent_open [OF _ Z this, of k1] True
    have U: "UpdateEvent zk k1 =
           Some (k1\<lparr>event := Some (fd,
                   (if i AND ZOOKEEPER_READ \<noteq> 0 then kReadable zk else 0)
                     OR (if i AND ZOOKEEPER_WRITE \<noteq> 0 then kWritable zk else 0),
                   if IsOk s then tv else 100)\<rparr>)" by simp
    have "HandleEvent zk events k =
           Rearmed (k1\<lparr>event := Some (fd,
                   (if i AND ZOOKEEPER_READ \<noteq> 0 then kReadable zk else 0)
                     OR (if i AND ZOOKEEPER_WRITE \<noteq> 0 then kWritable zk else 0),
                   if IsOk s then tv else 100)\<rparr>)"
      using H True by (simp add: U)
    with True show ?thesis by (simp add: Z)
  qed
qed

theorem HandleEvent_rearms_iff_witness:
  "ZOOKEEPER_READ = (if 1 AND kReadable picky_zookeeper \<noteq> 0 then ZOOKEEPER_READ else 0)
                      OR (if 1 AND kWritable picky_zookeeper \<noteq> 0 then ZOOKEEPER_WRITE else 0)
   \<and> open_session = snd (Process picky_zookeeper ZOOKEEPER_READ open_session)
   \<and> \<not> IsBadArguments (fst (Process picky_zookeeper ZOOKEEPER_READ open_session))
   \<and> \<not> IsOk (fst (Process picky_zookeeper ZOOKEEPER_READ open_session))
   \<and> IsBadArguments (zookeeper_process picky_zookeeper ZOOKEEPER_WRITE)
   \<and> IsOpen open_session \<and> \<not> IsUnrecoverable picky_zookeeper open_session
   \<and> \<not> IsBadArguments (fst (zookeeper_interest picky_zookeeper))
   \<and> HandleEvent picky_zookeeper 1 open_session
       = Rearmed (open_session\<lparr>event := Some (5, 3, 100)\<rparr>)"
proof -
  have flags: "ZOOKEEPER_READ = (if 1 AND kReadable picky_zookeeper \<noteq> 0 then ZOOKEEPER_READ else 0)
                      OR (if 1 AND kWritable picky_zookeeper \<noteq> 0 then ZOOKEEPER_WRITE else 0)"
    by (simp add: picky_zookeeper_def)
  have opn: "IsOpen open_session" by (simp add: IsOpen_def open_session_def)
  have after: "open_session = snd (Process picky_zookeeper ZOOKEEPER_READ open_session)"
    using opn by (simp add: Process_def picky_zookeeper_def)
  have proc: "\<not> IsBadArguments (fst (Process picky_zookeeper ZOOKEEPER_READ open_session))"
    "\<not> IsOk (fst (Process picky_zookeeper ZOOKEEPER_READ open_session))"
    using opn by (simp_all add: Process_def picky_zookeeper_def IsBadArguments_def IsOk_def)
  have other: "IsBadArguments (zookeeper_process picky_zookeeper ZOOKEEPER_WRITE)"
    by (simp add: picky_zookeeper_def IsBadArguments_def ZOOKEEPER_READ_def ZOOKEEPER_WRITE_def)
  have rec: "\<not> IsUnrecoverable picky_zookeeper open_session"
    by (simp add: IsUnrecoverable_def picky_zookeeper_def)
  have intr: "\<not> IsBadArguments (fst (zookeeper_interest picky_zookeeper))"
    by (simp add: picky_zookeeper_def IsBadArguments_def)
  from HandleEvent_rearms_iff [OF flags after proc(1)] intr opn rec
  have "HandleEvent picky_zookeeper 1 open_session
       = Rearmed (open_session\<lparr>event := Some (5, 3, 100)\<rparr>)"
    by (simp add: picky_zookeeper_def IsOk_def ZOOKEEPER_READ_def ZOOKEEPER_WRITE_def)
  with flags after proc other opn rec intr show ?thesis by blast
qed

text \<open>
  Claim C7. On an open session, \<open>Multi\<close> over \<open>n\<close> operations passes the \<open>CHECK_EQ\<close> and
  submits a pending operation whose count is \<open>n\<close> and whose result slots are the \<open>n\<close>
  results \<open>MakeResult\<close> gave, one per operation in the order of the operations (the
  \<open>i\<close>-th made with native step \<open>i\<close>). The slots are the same whatever the submission
  then returns.
\<close>

theorem Multi_result_slots:
  assumes "IsOpen k"
  shows "Multi mk rc ops k =
           (k, [SubmitMulti (length ops), if IsOk rc then Release else Callback OpMulti rc],
            Some \<lparr>count = length ops,
                  results = map (\<lambda>(op, i). mk op i) (zip ops [0 ..< length ops])\<rparr>)
         \<and> length (map (\<lambda>(op, i). mk op i) (zip ops [0 ..< length ops])) = length ops"
  using assms by (simp add: Multi_def Let_def make_results_eq)

theorem Multi_result_slots_witness:
  "IsOpen open_session
   \<and> Multi (\<lambda>op i. (op, i)) (kFailure (- 4)) [''a'', ''b'', ''c''] open_session
       = (open_session, [SubmitMulti 3, Callback OpMulti (kFailure (- 4))],
          Some \<lparr>count = 3, results = [(''a'', 0), (''b'', 1), (''c'', 2)]\<rparr>)"
  using Multi_result_slots [of open_session "\<lambda>op i. (op, i)" "kFailure (- 4)" "[''a'', ''b'', ''c'']"]
  by (simp add: open_session_def IsOpen_def IsOk_def upt_rec)

lemma Get_ok:
  "IsOpen k \<Longrightarrow> IsOk rc \<Longrightarrow>
   Get rc path w k =
     (k\<lparr>node_watcher := (node_watcher k)(path \<mapsto> watchers_at (node_watcher k) path @ [w])\<rparr>,
      [Submit OpGet path (w \<noteq> None), Release])"
  by (simp add: Get_def push_watcher_eq Let_def)

lemma Exists_ok:
  "IsOpen k \<Longrightarrow> IsOk rc \<Longrightarrow>
   Exists rc path w k =
     (k\<lparr>node_watcher := (node_watcher k)(path \<mapsto> watchers_at (node_watcher k) path @ [w])\<rparr>,
      [Submit OpExists path (w \<noteq> None), Release])"
  by (simp add: Exists_def push_watcher_eq Let_def)

lemma GetChildren_ok:
  "IsOpen k \<Longrightarrow> IsOk rc \<Longrightarrow>
   GetChildren rc path w k =
     (k\<lparr>child_watcher := (child_watcher k)(path \<mapsto> watchers_at (child_watcher k) path @ [w])\<rparr>,
      [Submit OpGetChildren path (w \<noteq> None), Release])"
  by (simp add: GetChildren_def push_watcher_eq Let_def)

lemma GetChildrenWithStat_ok:
  "IsOpen k \<Longrightarrow> IsOk rc \<Longrightarrow>
   GetChildrenWithStat rc path w k =
     (k\<lparr>child_watcher := (child_watcher k)(path \<mapsto> watchers_at (child_watcher k) path @ [w])\<rparr>,
      [Submit OpGetChildrenWithStat path (w \<noteq> None), Release])"
  by (simp add: GetChildrenWithStat_def push_watcher_eq Let_def)

text \<open>
  Claim C9. After two successful \<open>Get\<close> calls for one path on an open session, the
  path's node-watcher list is the list it had before followed by the first call's
  watcher and then the second's.
\<close>

theorem two_Gets_accumulate:
  assumes "IsOpen k" and "IsOk rc1" and "IsOk rc2"
  shows "watchers_at (node_watcher (fst (Get rc2 path w2 (fst (Get rc1 path w1 k))))) path
           = watchers_at (node_watcher k) path @ [w1, w2]"
proof -
  let ?k1 = "k\<lparr>node_watcher := (node_watcher k)(path \<mapsto> watchers_at (node_watcher k) path @ [w1])\<rparr>"
  have "IsOpen ?k1" using assms(1) by (simp add: IsOpen_def)
  then show ?thesis
    using assms by (simp add: Get_ok watchers_at_def)
qed

theorem two_Gets_accumulate_witness:
  "IsOpen open_session \<and> IsOk kOk
   \<and> watchers_at (node_watcher (fst (Get kOk ''/a'' (Some 8) (fst (Get kOk ''/a'' (Some 7) open_session))))) ''/a''
       = [Some 7, Some 8]"
  using two_Gets_accumulate [of open_session kOk kOk "''/a''" "Some 8" "Some 7"]
  by (simp add: open_session_def IsOpen_def IsOk_def watchers_at_def)

text \<open>
  Claim C10. A successful \<open>Get\<close> or \<open>Exists\<close> on an open session appends the supplied
  watcher, and nothing else, to the path's node-watcher list; a successful
  \<open>GetChildren\<close> or \<open>GetChildrenWithStat\<close> does so to the path's child-watcher list.
  Nothing else of the adapter changes. The watcher is appended also when it is empty
  (\<open>None\<close>), and then the submission carried no watcher function.
\<close>

theorem successful_call_stores_watcher:
  assumes "IsOpen k" and "IsOk rc"
  shows "Get rc path w k =
           (k\<lparr>node_watcher := (node_watcher k)(path \<mapsto> watchers_at (node_watcher k) path @ [w])\<rparr>,
            [Submit OpGet path (w \<noteq> None), Release])
       \<and> Exists rc path w k =
           (k\<lparr>node_watcher := (node_watcher k)(path \<mapsto> watchers_at (node_watcher k) path @ [w])\<rparr>,
            [Submit OpExists path (w \<noteq> None), Release])
       \<and> GetChildren rc path c k =
           (k\<lparr>child_watcher := (child_watcher k)(path \<mapsto> watchers_at (child_watcher k) path @ [c])\<rparr>,
            [Submit OpGetChildren path (c \<noteq> None), Release])
       \<and> GetChildrenWithStat rc path c k =
           (k\<lparr>child_watcher := (child_watcher k)(path \<mapsto> watchers_at (child_watcher k) path @ [c])\<rparr>,
            [Submit OpGetChildrenWithStat path (c \<noteq> None), Release])"
  using assms
  by (simp add: Get_ok Exists_ok GetChildren_ok GetChildrenWithStat_ok)

theorem successful_call_stores_watcher_witness:
  "IsOpen open_session \<and> IsOk kOk
   \<and> watchers_at (node_watcher (fst (Exists kOk ''/a'' None open_session))) ''/a'' = [None]
   \<and> watchers_at (child_watcher (fst (GetChildren kOk ''/a'' None open_session))) ''/a'' = [None]
   \<and> snd (Exists kOk ''/a'' None open_session) = [Submit OpExists ''/a'' False, Release]"
  using successful_call_stores_watcher [of open_session kOk "''/a''" None None]
  by (simp add: open_session_def IsOpen_def IsOk_def watchers_at_def)

end
